theory Spec2Isabelle
  imports Main "HOL-Library.Word" "HOL-Library.Sublist"
begin

section \<open>The event router: data\<close>

text \<open>
  The router of \<^verbatim>\<open>eventrouter.go\<close> is one goroutine (the server) that owns a cache, a
  counter for subscription ids and a map from ids to channels, and answers one request at
  a time. The model is a state record and a function per \<^verbatim>\<open>select\<close> case; every channel
  send the server performs is an event, in program order.

  Go's \<^verbatim>\<open>int\<close> is modelled as a 64-bit word (its width on the usual platforms): \<open>+\<close> and
  \<open>-\<close> wrap, comparisons with \<open>0\<close> are signed.
\<close>

type_synonym go_int = "64 word"

text \<open>A channel is the address \<^verbatim>\<open>make(chan ...)\<close> returned: the n-th channel made is \<open>n\<close>.\<close>

type_synonym chan = nat

datatype 'a updateMessage = UpdateMessage (item: 'a)

text \<open>
  The requests the server's \<^verbatim>\<open>select\<close> can receive, one constructor per channel
  (\<^verbatim>\<open>cancelSubC\<close>, \<^verbatim>\<open>subscribeC\<close>, \<^verbatim>\<open>sendC\<close>, \<^verbatim>\<open>countC\<close>, \<^verbatim>\<open>clearC\<close>) with the fields
  of the request. No channel carries a \<^verbatim>\<open>getItemsReq\<close>.
\<close>

datatype 'a request =
    CancelSubReq go_int
  | SubItemsReq bool
  | SendItemReq 'a
  | CountItemsReq
  | ClearItemsReq

text \<open>What \<^verbatim>\<open>select\<close> picks: the end of the context, or a request.\<close>

datatype 'a selected = CtxDone | Recv "'a request"

text \<open>
  The responses sent on \<^verbatim>\<open>req.resp\<close>. A \<^verbatim>\<open>subItemsRes\<close> carries the id and the update
  channel; its \<^verbatim>\<open>cancel\<close> closure is fixed by the id (it sends \<open>CancelSubReq id\<close>), its
  \<^verbatim>\<open>tail\<close> and \<^verbatim>\<open>filter\<close> fields are never set.
\<close>

datatype res =
    CancelSubRes
  | SubItemsRes go_int chan
  | SendItemRes
  | CountItemsRes go_int
  | ClearItemsRes

text \<open>
  The channels are unbuffered: a send completes when the other side receives, and blocks
  until then. An event is a send of the server that completed: a response handed to the
  caller, or an update handed to the goroutine that drains the update channel.
\<close>

datatype 'a event = Resp res | Update chan "'a updateMessage"

datatype panic = SliceBoundsOutOfRange

text \<open>
  How a case of the \<^verbatim>\<open>select\<close> fails to finish: it panics, or it blocks forever in a
  send on an update channel that nobody receives from any more.
\<close>

datatype halt = Panic panic | Blocked chan

text \<open>
  The other end of the update channels. The goroutine that \<^verbatim>\<open>sub\<close> starts receives updates
  until its \<^verbatim>\<open>select\<close> takes \<^verbatim>\<open>ctx.Done()\<close>; from then on it waits in
  \<^verbatim>\<open>cancelSubC <- cancelReq\<close> and never receives again, so a send of the server on its
  channel blocks forever. For every channel this is the number of updates its goroutine
  still takes before that; \<open>None\<close> when its context is never done. Which requests reach
  the server, and when, is given by the selections of the loop.
\<close>

type_synonym receivers = "chan \<Rightarrow> nat option"

text \<open>
  The guarded state of the server goroutine, with two parts of its surroundings:
  \<open>chans_made\<close> is the allocator behind \<^verbatim>\<open>make(chan ...)\<close>, the number of update channels
  made so far, and \<open>receivers\<close> are the goroutines that drain them.
\<close>

record 'a server =
  cache :: "'a list"
  nextSubId :: go_int
  subscriptions :: "go_int \<rightharpoonup> chan"
  chans_made :: nat
  receivers :: receivers

definition init :: "receivers \<Rightarrow> 'a server" where
  "init rcv = \<lparr>cache = [], nextSubId = 1000, subscriptions = Map.empty, chans_made = 0,
                receivers = rcv\<rparr>"

text \<open>Two kinds of subscribers: none is ever done, and all are done from the start.\<close>

definition never_done :: receivers where
  "never_done c = None"

definition done_at_once :: receivers where
  "done_at_once c = Some 0"

section \<open>The server loop\<close>

text \<open>\<^verbatim>\<open>len(cache)\<close> as a Go \<^verbatim>\<open>int\<close>.\<close>

definition len :: "'a list \<Rightarrow> go_int" where
  "len xs = of_nat (length xs)"

text \<open>\<^verbatim>\<open>xs[low:]\<close>: panics unless \<open>0 \<le> low \<le> len(xs)\<close>.\<close>

definition slice_from :: "'a list \<Rightarrow> go_int \<Rightarrow> panic + 'a list" where
  "slice_from xs low =
     (if low <s 0 \<or> int (length xs) < sint low then Inl SliceBoundsOutOfRange
      else Inr (drop (nat (sint low)) xs))"

text \<open>
  The eviction of the \<^verbatim>\<open>sendC\<close> case:
  \<^verbatim>\<open>if cacheDepth != 0 { if overflow := len(cache) + 1 - cacheDepth; overflow > 0
     { cache = cache[overflow-1:] } }\<close>
\<close>

definition evict :: "go_int \<Rightarrow> 'a list \<Rightarrow> panic + 'a list" where
  "evict cacheDepth c =
     (if cacheDepth \<noteq> 0 then
        (let overflow = len c + 1 - cacheDepth
         in if 0 <s overflow then slice_from c (overflow - 1) else Inr c)
      else Inr c)"

text \<open>
  \<^verbatim>\<open>for _, sub := range subscriptions\<close>: Go leaves the order in which a map is ranged
  over open, so the order is a parameter \<open>ord\<close> that lists the keys of a map; the
  channels visited are the values at these keys.
\<close>

type_synonym range_order = "(go_int \<rightharpoonup> chan) \<Rightarrow> go_int list"

definition range_ok :: "range_order \<Rightarrow> bool" where
  "range_ok ord \<longleftrightarrow> (\<forall>m. finite (dom m) \<longrightarrow> set (ord m) = dom m \<and> distinct (ord m))"

definition range_subs :: "range_order \<Rightarrow> (go_int \<rightharpoonup> chan) \<Rightarrow> chan list" where
  "range_subs ord m = List.map_filter m (ord m)"

text \<open>
  The receivers after the goroutine of channel \<open>c\<close> has taken one update, and whether a
  goroutine still takes \<open>n\<close> updates.
\<close>

definition took :: "receivers \<Rightarrow> chan \<Rightarrow> receivers" where
  "took rcv c = (case rcv c of None \<Rightarrow> rcv | Some n \<Rightarrow> rcv(c := Some (n - 1)))"

definition takes :: "nat option \<Rightarrow> nat \<Rightarrow> bool" where
  "takes r n = (case r of None \<Rightarrow> True | Some k \<Rightarrow> n \<le> k)"

definition will_take :: "nat option \<Rightarrow> nat \<Rightarrow> nat" where
  "will_take r n = (case r of None \<Rightarrow> n | Some k \<Rightarrow> min k n)"

text \<open>
  A sequence of sends \<^verbatim>\<open>c <- m\<close> on update channels, in order: the sends that completed,
  and the channel on which the sequence blocks forever, or the receivers after all of them.
\<close>

fun hand_off :: "receivers \<Rightarrow> (chan \<times> 'a updateMessage) list
    \<Rightarrow> 'a event list \<times> (chan + receivers)" where
  "hand_off rcv [] = ([], Inr rcv)"
| "hand_off rcv ((c, m) # rest) =
     (if rcv c = Some 0 then ([], Inl c)
      else (case hand_off (took rcv c) rest of (evs, r) \<Rightarrow> (Update c m # evs, r)))"

text \<open>
  The loop in the \<^verbatim>\<open>subscribeC\<close> case,
  \<^verbatim>\<open>for _, item := range cache { resp.updateC <- updateMessage{item: item} }\<close>,
  and the loop in the \<^verbatim>\<open>sendC\<close> case,
  \<^verbatim>\<open>for _, sub := range subscriptions { sub <- updateMessage{item: req.item} }\<close>.
\<close>

definition replay :: "'a server \<Rightarrow> chan \<Rightarrow> 'a event list \<times> (chan + receivers)" where
  "replay st updateC = hand_off (receivers st) (map (\<lambda>x. (updateC, UpdateMessage x)) (cache st))"

definition broadcast :: "range_order \<Rightarrow> 'a server \<Rightarrow> 'a
    \<Rightarrow> 'a event list \<times> (chan + receivers)" where
  "broadcast ord st x =
     hand_off (receivers st) (map (\<lambda>sub. (sub, UpdateMessage x)) (range_subs ord (subscriptions st)))"

text \<open>
  One case of the \<^verbatim>\<open>select\<close>: the events it emits, in order, and the new state, or the
  panic that ends the program, or the channel on which the server blocks forever. The
  events emitted before a panic or a blocking send are kept. The send of the response
  always completes: the caller that sent the request is waiting for it.
\<close>

fun handle :: "range_order \<Rightarrow> go_int \<Rightarrow> 'a server \<Rightarrow> 'a request
    \<Rightarrow> 'a event list \<times> (halt + 'a server)" where
  "handle ord cacheDepth st (CancelSubReq i) =
     ([Resp CancelSubRes],
      Inr (st\<lparr>subscriptions := (subscriptions st)(i := None)\<rparr>))"
| "handle ord cacheDepth st (SubItemsReq tail) =
     (let subId = nextSubId st;
          updateC = chans_made st
      in case (if tail then replay st updateC else ([], Inr (receivers st))) of
           (evs, Inl c) \<Rightarrow> (Resp (SubItemsRes subId updateC) # evs, Inl (Blocked c))
         | (evs, Inr rcv) \<Rightarrow>
             (Resp (SubItemsRes subId updateC) # evs,
              Inr (st\<lparr>subscriptions := (subscriptions st)(subId \<mapsto> updateC),
                      chans_made := Suc (chans_made st),
                      nextSubId := nextSubId st + 1,
                      receivers := rcv\<rparr>)))"
| "handle ord cacheDepth st (SendItemReq x) =
     (case broadcast ord st x of
        (evs, Inl c) \<Rightarrow> (evs, Inl (Blocked c))
      | (evs, Inr rcv) \<Rightarrow>
          (case evict cacheDepth (cache st) of
             Inl p \<Rightarrow> (evs, Inl (Panic p))
           | Inr c \<Rightarrow> (evs @ [Resp SendItemRes], Inr (st\<lparr>cache := c @ [x], receivers := rcv\<rparr>))))"
| "handle ord cacheDepth st CountItemsReq =
     ([Resp (CountItemsRes (len (cache st)))], Inr st)"
| "handle ord cacheDepth st ClearItemsReq =
     ([Resp ClearItemsRes], Inr (st\<lparr>cache := take 0 (cache st)\<rparr>))"

text \<open>
  How the loop ends on a list of selections: still waiting in \<^verbatim>\<open>select\<close>, returned
  because the context was done, stopped by a panic, or blocked forever in a send on an
  update channel.
\<close>

datatype 'a outcome =
    Selecting "'a server"
  | Returned "'a server"
  | Panicked panic
  | BlockedOn chan

fun actor_loop :: "range_order \<Rightarrow> go_int \<Rightarrow> 'a server \<Rightarrow> 'a selected list
    \<Rightarrow> 'a event list \<times> 'a outcome" where
  "actor_loop ord cacheDepth st [] = ([], Selecting st)"
| "actor_loop ord cacheDepth st (CtxDone # rest) = ([], Returned st)"
| "actor_loop ord cacheDepth st (Recv req # rest) =
     (case handle ord cacheDepth st req of
        (evs, Inl (Panic p)) \<Rightarrow> (evs, Panicked p)
      | (evs, Inl (Blocked c)) \<Rightarrow> (evs, BlockedOn c)
      | (evs, Inr st') \<Rightarrow>
          (case actor_loop ord cacheDepth st' rest of (evs', out) \<Rightarrow> (evs @ evs', out)))"

text \<open>The messages sent on one channel, and the items of the sends among some selections.\<close>

fun chan_log :: "chan \<Rightarrow> 'a event list \<Rightarrow> 'a updateMessage list" where
  "chan_log c [] = []"
| "chan_log c (Resp r # evs) = chan_log c evs"
| "chan_log c (Update c' m # evs) = (if c' = c then m # chan_log c evs else chan_log c evs)"

fun sent_items :: "'a selected list \<Rightarrow> 'a list" where
  "sent_items [] = []"
| "sent_items (Recv (SendItemReq x) # sels) = x # sent_items sels"
| "sent_items (s # sels) = sent_items sels"

text \<open>The events a case emits after it has sent its response.\<close>

fun after_response :: "'a event list \<Rightarrow> 'a event list" where
  "after_response [] = []"
| "after_response (Resp r # evs) = evs"
| "after_response (Update c m # evs) = after_response evs"

text \<open>One order a map can be ranged over: by ascending key.\<close>

definition sorted_order :: range_order where
  "sorted_order m = sorted_list_of_set (dom m)"

section \<open>The public functions\<close>

text \<open>
  A caller that waits on \<^verbatim>\<open>req.resp\<close> gets the response the server sent there. The
  channel is made by the caller and reaches the server only inside the request, so when
  the request was never sent nobody can send on it and the receive never returns.
\<close>

datatype call_result = Returns res | BlocksForever | ServerPanics panic

fun response_of :: "'a event list \<Rightarrow> res option" where
  "response_of [] = None"
| "response_of (Resp r # evs) = Some r"
| "response_of (Update c m # evs) = response_of evs"

definition await :: "res option \<Rightarrow> call_result" where
  "await sent = (case sent of None \<Rightarrow> BlocksForever | Some r \<Rightarrow> Returns r)"

text \<open>
  \<^verbatim>\<open>c <- req; <-req.resp\<close>: the request is sent to the server, then the response awaited.
  The result is the events of the server, what the caller sees, and how the server goes
  on. A server that blocks after it has sent the response leaves the caller returned
  and every later caller waiting.
\<close>

definition transact :: "range_order \<Rightarrow> go_int \<Rightarrow> 'a server \<Rightarrow> 'a request
    \<Rightarrow> 'a event list \<times> call_result \<times> (halt + 'a server)" where
  "transact ord cacheDepth st req =
     (case handle ord cacheDepth st req of
        (evs, Inl (Panic p)) \<Rightarrow> (evs, ServerPanics p, Inl (Panic p))
      | (evs, r) \<Rightarrow> (evs, await (response_of evs), r))"

definition router_Send :: "range_order \<Rightarrow> go_int \<Rightarrow> 'a server \<Rightarrow> 'a
    \<Rightarrow> 'a event list \<times> call_result \<times> (halt + 'a server)" where
  "router_Send ord cacheDepth st x = transact ord cacheDepth st (SendItemReq x)"

definition sub :: "range_order \<Rightarrow> go_int \<Rightarrow> 'a server \<Rightarrow> bool
    \<Rightarrow> 'a event list \<times> call_result \<times> (halt + 'a server)" where
  "sub ord cacheDepth st tail = transact ord cacheDepth st (SubItemsReq tail)"

definition router_Tail :: "range_order \<Rightarrow> go_int \<Rightarrow> 'a server
    \<Rightarrow> 'a event list \<times> call_result \<times> (halt + 'a server)" where
  "router_Tail ord cacheDepth st = sub ord cacheDepth st True"

definition router_Subscribe :: "range_order \<Rightarrow> go_int \<Rightarrow> 'a server
    \<Rightarrow> 'a event list \<times> call_result \<times> (halt + 'a server)" where
  "router_Subscribe ord cacheDepth st = sub ord cacheDepth st False"

text \<open>
  \<^verbatim>\<open>router.Items\<close>, \<^verbatim>\<open>router.Clear\<close> and \<^verbatim>\<open>router.Count\<close> make the request and its response
  channel and wait on that channel; none of them sends the request to the server.
\<close>

definition router_Items :: "'a server \<Rightarrow> 'a event list \<times> call_result \<times> (halt + 'a server)" where
  "router_Items st = ([], await None, Inr st)"

definition router_Clear :: "'a server \<Rightarrow> 'a event list \<times> call_result \<times> (halt + 'a server)" where
  "router_Clear st = ([], await None, Inr st)"

definition router_Count :: "'a server \<Rightarrow> 'a event list \<times> call_result \<times> (halt + 'a server)" where
  "router_Count st = ([], await None, Inr st)"

text \<open>
  The goroutine started by \<^verbatim>\<open>sub\<close>, on what its \<^verbatim>\<open>select\<close> takes: on each update it
  calls \<^verbatim>\<open>onItem\<close>, a callback that changes the subscriber's own state \<open>'s\<close>; when its
  context is done it calls \<^verbatim>\<open>cancel\<close> and takes nothing more. The result says whether
  \<^verbatim>\<open>cancel\<close> was called.
\<close>

datatype 'a task_selected = TaskCtxDone | UpdateC "'a updateMessage"

fun delivery_task :: "('a \<Rightarrow> 's \<Rightarrow> 's) \<Rightarrow> 's \<Rightarrow> 'a task_selected list \<Rightarrow> 's \<times> bool" where
  "delivery_task onItem s [] = (s, False)"
| "delivery_task onItem s (TaskCtxDone # rest) = (s, True)"
| "delivery_task onItem s (UpdateC update # rest) = delivery_task onItem (onItem (item update) s) rest"

text \<open>A callback that appends each item it is given to a log.\<close>

definition record_item :: "'a \<Rightarrow> 'a list \<Rightarrow> 'a list" where
  "record_item x log = log @ [x]"

section \<open>The invariant of the subscription table\<close>

text \<open>
  Every channel in the table was made before (it lies below the allocator), no channel is
  in the table under two ids, and the table is finite.
\<close>

definition subs_inv :: "'a server \<Rightarrow> bool" where
  "subs_inv st \<longleftrightarrow>
     finite (dom (subscriptions st))
     \<and> (\<forall>k c. subscriptions st k = Some c \<longrightarrow> c < chans_made st)
     \<and> inj_on (subscriptions st) (dom (subscriptions st))"

section \<open>Arithmetic of the eviction\<close>

lemma range_subs_empty: "range_subs ord Map.empty = []"
  by (simp add: range_subs_def List.map_filter_def)

lemma sint_len: "length c < 2 ^ 63 \<Longrightarrow> sint (len c) = int (length c)"
proof -
  assume a: "length c < 2 ^ 63"
  have "sint (word_of_int (int (length c)) :: go_int)
          = signed_take_bit (LENGTH(64) - 1) (int (length c))"
    by (rule sint_sbintrunc')
  then have "sint (len c) = signed_take_bit 63 (int (length c))"
    by (simp add: len_def)
  also have "\<dots> = int (length c)"
    using a by (intro signed_take_bit_int_eq_self) auto
  finally show ?thesis .
qed

lemma sint_len_Suc:
  assumes "length c < 2 ^ 63 - 1"
  shows "sint (len c + 1) = int (length c) + 1"
proof -
  have "sint (len c + 1) = signed_take_bit 63 (int (length c) + 1)"
    using assms by (simp add: sint_word_ariths sint_len)
  also have "\<dots> = int (length c) + 1"
    using assms by (intro signed_take_bit_int_eq_self) auto
  finally show ?thesis .
qed

text \<open>While the difference fits into an \<^verbatim>\<open>int\<close>, \<^verbatim>\<open>overflow\<close> is the mathematical value.\<close>

lemma sint_overflow:
  assumes "length c < 2 ^ 63 - 1"
    and "- (2 ^ 63) \<le> int (length c) + 1 - sint d"
    and "int (length c) + 1 - sint d < 2 ^ 63"
  shows "sint (len c + 1 - d) = int (length c) + 1 - sint d"
proof -
  have "sint (len c + 1 - d) = signed_take_bit 63 (int (length c) + 1 - sint d)"
    using assms(1) by (simp add: sint_word_diff sint_len_Suc)
  also have "\<dots> = int (length c) + 1 - sint d"
    using assms(2,3) by (intro signed_take_bit_int_eq_self) auto
  finally show ?thesis .
qed

lemma sint_pred:
  assumes "0 < sint (w :: go_int)"
  shows "sint (w - 1) = sint w - 1"
proof -
  have b: "sint w < 2 ^ 63" using sint_lt [of w] by simp
  have "sint (w - 1) = signed_take_bit 63 (sint w - 1)"
    by (simp add: sint_word_diff)
  also have "\<dots> = sint w - 1"
    using assms b by (intro signed_take_bit_int_eq_self) auto
  finally show ?thesis .
qed

lemma signed_take_bit_wraps:
  assumes "2 ^ 63 \<le> k" and "k < 2 ^ 64"
  shows "signed_take_bit 63 (k::int) = k - 2 ^ 64"
proof -
  have "signed_take_bit 63 k = signed_take_bit 63 (k - 2 ^ 64)"
    by (simp add: signed_take_bit_eq_iff_take_bit_eq take_bit_eq_mod)
  also have "\<dots> = k - 2 ^ 64"
    using assms by (intro signed_take_bit_int_eq_self) auto
  finally show ?thesis .
qed

lemma evict_zero: "evict 0 c = Inr c"
  by (simp add: evict_def)

text \<open>
  A positive depth \<open>k\<close>: the eviction keeps the last \<open>k\<close> items of the cache, and the
  item of the send is appended after it.
\<close>

lemma evict_pos:
  assumes "0 <s d" and "length c < 2 ^ 63 - 1"
  shows "evict d c = Inr (drop (length c - nat (sint d)) c)"
proof -
  have d: "0 < sint d" "sint d < 2 ^ 63"
    using assms(1) sint_lt [of d] by (simp_all add: word_sless_alt)
  have ov: "sint (len c + 1 - d) = int (length c) + 1 - sint d"
    using assms(2) d by (intro sint_overflow) auto
  have dn: "d \<noteq> 0" using d by auto
  show ?thesis
  proof (cases "0 < sint (len c + 1 - d)")
    case True
    then have "sint (len c + 1 - d - 1) = sint (len c + 1 - d) - 1"
      by (rule sint_pred)
    then have "sint (len c - d) = int (length c) - sint d"
      by (simp add: ov)
    moreover from True ov have "sint d \<le> int (length c)" by simp
    ultimately show ?thesis using True dn d
      by (simp add: evict_def Let_def word_sless_alt slice_from_def nat_diff_distrib')
  next
    case False
    with dn d ov show ?thesis
      by (simp add: evict_def Let_def word_sless_alt)
  qed
qed

text \<open>
  A negative depth and an empty cache: \<^verbatim>\<open>overflow\<close> is \<open>1 - cacheDepth\<close>, at least 2, and
  the slice expression is out of range. The two smallest values of \<^verbatim>\<open>int\<close> are left out:
  there \<open>1 - cacheDepth\<close> wraps around.
\<close>

lemma sint_neg_not_wrapping:
  assumes "d <s 0" and "d \<noteq> - (2 ^ 63)" and "d \<noteq> - (2 ^ 63) + 1"
  shows "- (2 ^ 63) + 2 \<le> sint (d :: go_int)" and "sint d < 0"
proof -
  show "sint d < 0" using assms(1) by (simp add: word_sless_alt)
  have lo: "- (2 ^ 63) \<le> sint d" using sint_ge [of d] by simp
  have "sint d \<noteq> - (2 ^ 63)"
  proof
    assume "sint d = - (2 ^ 63)"
    moreover have "sint (- (2 ^ 63) :: go_int) = - (2 ^ 63)" by simp
    ultimately have "sint d = sint (- (2 ^ 63) :: go_int)" by (simp only:)
    then have "d = - (2 ^ 63)" by (rule signed_word_eqI)
    then show False using assms(2) by simp
  qed
  moreover have "sint d \<noteq> - (2 ^ 63) + 1"
  proof
    assume "sint d = - (2 ^ 63) + 1"
    moreover have "sint (- (2 ^ 63) + 1 :: go_int) = - (2 ^ 63) + 1" by simp
    ultimately have "sint d = sint (- (2 ^ 63) + 1 :: go_int)" by (simp only:)
    then have "d = - (2 ^ 63) + 1" by (rule signed_word_eqI)
    then show False using assms(3) by simp
  qed
  ultimately show "- (2 ^ 63) + 2 \<le> sint d" using lo by linarith
qed

lemma evict_neg_empty:
  assumes "d <s 0" and "d \<noteq> - (2 ^ 63)" and "d \<noteq> - (2 ^ 63) + 1"
  shows "2 \<le>s len ([]::'a list) + 1 - d"
    and "slice_from ([]::'a list) (len ([]::'a list) + 1 - d - 1) = Inl SliceBoundsOutOfRange"
    and "evict d ([]::'a list) = Inl SliceBoundsOutOfRange"
proof -
  have lo2: "- (2 ^ 63) + 2 \<le> sint d" and d: "sint d < 0"
    by (rule sint_neg_not_wrapping [OF assms])+
  have "sint (len ([]::'a list) + 1 - d) = int (length ([]::'a list)) + 1 - sint d"
    using d lo2 by (intro sint_overflow) auto
  then have ov: "sint (len ([]::'a list) + 1 - d) = 1 - sint d" by simp
  show "2 \<le>s len ([]::'a list) + 1 - d"
    using d by (simp add: word_sle_eq ov)
  have "0 < sint (len ([]::'a list) + 1 - d)" using d ov by simp
  then have "sint (len ([]::'a list) + 1 - d - 1) = sint (len ([]::'a list) + 1 - d) - 1"
    by (rule sint_pred)
  then have p: "sint (len ([]::'a list) - d) = - sint d"
    by (simp add: ov)
  then show "slice_from ([]::'a list) (len ([]::'a list) + 1 - d - 1) = Inl SliceBoundsOutOfRange"
    using d by (simp add: slice_from_def word_sless_alt)
  from p show "evict d ([]::'a list) = Inl SliceBoundsOutOfRange"
    using d by (auto simp add: evict_def Let_def word_sless_alt slice_from_def ov)
qed

text \<open>
  At the two smallest values of \<^verbatim>\<open>int\<close> the difference wraps around to a negative
  \<^verbatim>\<open>overflow\<close>, and nothing is evicted.
\<close>

lemma evict_wrapped:
  assumes "d = - (2 ^ 63) \<or> d = - (2 ^ 63) + 1" and "length c < 2 ^ 63 - 1"
  shows "evict d c = Inr c"
proof -
  have sd: "sint d = - (2 ^ 63) \<or> sint d = - (2 ^ 63) + 1"
    using assms(1) by auto
  have "sint (len c + 1 - d) = signed_take_bit 63 (int (length c) + 1 - sint d)"
    using assms(2) by (simp add: sint_word_diff sint_len_Suc)
  also have "\<dots> = int (length c) + 1 - sint d - 2 ^ 64"
    using assms(2) sd by (intro signed_take_bit_wraps) auto
  finally have "sint (len c + 1 - d) < 0"
    using assms(2) sd by auto
  then show ?thesis
    by (simp add: evict_def Let_def word_sless_alt)
qed

section \<open>Sends on update channels\<close>

lemma took_never_done: "took never_done c = never_done"
  by (simp add: took_def never_done_def)

lemma hand_off_Cons [simp]:
  "hand_off rcv ((c, m) # rest)
     = (if rcv c = Some 0 then ([], Inl c)
        else (Update c m # fst (hand_off (took rcv c) rest), snd (hand_off (took rcv c) rest)))"
  by (simp split: prod.splits)

declare hand_off.simps(2) [simp del]

lemma hand_off_never_done:
  "hand_off never_done ps = (map (\<lambda>(c, m). Update c m) ps, Inr never_done)"
proof (induction ps)
  case Nil
  then show ?case by simp
next
  case (Cons p ps)
  obtain c m where p: "p = (c, m)" by (cases p)
  have "never_done c \<noteq> Some 0" by (simp add: never_done_def)
  then show ?case using Cons by (simp add: p took_never_done)
qed

lemma hand_off_prefix:
  "prefix (fst (hand_off rcv ps)) (map (\<lambda>(c, m). Update c m) ps)"
proof (induction ps arbitrary: rcv)
  case Nil
  then show ?case by simp
next
  case (Cons p ps)
  obtain c m where p: "p = (c, m)" by (cases p)
  show ?case
    using Cons [of "took rcv c"] by (simp add: p)
qed

lemma hand_off_complete:
  "snd (hand_off rcv ps) = Inr rcv' \<Longrightarrow> fst (hand_off rcv ps) = map (\<lambda>(c, m). Update c m) ps"
proof (induction ps arbitrary: rcv)
  case Nil
  then show ?case by simp
next
  case (Cons p ps)
  obtain c m where p: "p = (c, m)" by (cases p)
  show ?case
    using Cons.prems Cons.IH [of "took rcv c"]
    by (auto simp: p split: if_splits)
qed

text \<open>
  The replay on one channel: the goroutine takes as many items as it still takes, and the
  server blocks on the next one.
\<close>

lemma took_same: "took rcv c c = map_option (\<lambda>n. n - 1) (rcv c)"
  by (simp add: took_def split: option.splits)

lemma hand_off_same_chan_fst:
  "fst (hand_off rcv (map (\<lambda>x. (c, UpdateMessage x)) xs))
     = map (\<lambda>x. Update c (UpdateMessage x)) (take (will_take (rcv c) (length xs)) xs)"
proof (induction xs arbitrary: rcv)
  case Nil
  then show ?case by simp
next
  case (Cons x xs)
  show ?case
  proof (cases "rcv c")
    case None
    then show ?thesis
      using Cons [of "took rcv c"]
      by (simp add: took_same will_take_def)
  next
    case (Some k)
    then show ?thesis
      using Cons [of "took rcv c"]
      by (cases k) (simp_all add: took_same will_take_def)
  qed
qed

lemma hand_off_same_chan_snd:
  "snd (hand_off rcv (map (\<lambda>x. (c, UpdateMessage x)) xs)) = Inl c'
     \<longleftrightarrow> c' = c \<and> \<not> takes (rcv c) (length xs)"
proof (induction xs arbitrary: rcv)
  case Nil
  then show ?case by (simp add: takes_def split: option.splits)
next
  case (Cons x xs)
  show ?case
  proof (cases "rcv c")
    case None
    then show ?thesis
      using Cons [of "took rcv c"]
      by (simp add: took_same takes_def)
  next
    case (Some k)
    then show ?thesis
      using Cons [of "took rcv c"]
      by (cases k) (auto simp add: took_same takes_def)
  qed
qed

section \<open>Sends under a positive depth\<close>

lemma broadcast_never_done:
  "receivers st = never_done
     \<Longrightarrow> broadcast ord st x
           = (map (\<lambda>sub. Update sub (UpdateMessage x)) (range_subs ord (subscriptions st)),
              Inr never_done)"
  by (simp add: broadcast_def hand_off_never_done comp_def)

lemma broadcast_no_subs: "subscriptions st = Map.empty \<Longrightarrow> broadcast ord st x = ([], Inr (receivers st))"
  by (simp add: broadcast_def range_subs_empty)

lemma send_step_pos:
  assumes "0 <s d" and "length (cache st) < 2 ^ 63 - 1" and "receivers st = never_done"
  shows "snd (handle ord d st (SendItemReq x))
           = Inr (st\<lparr>cache := drop (length (cache st) - nat (sint d)) (cache st) @ [x]\<rparr>)"
proof -
  have "st\<lparr>cache := drop (length (cache st) - nat (sint d)) (cache st) @ [x], receivers := never_done\<rparr>
          = st\<lparr>cache := drop (length (cache st) - nat (sint d)) (cache st) @ [x]\<rparr>"
    using assms(3) by simp
  then show ?thesis
    by (simp add: evict_pos [OF assms(1,2)] broadcast_never_done [OF assms(3)])
qed

lemma drop_step:
  assumes "1 \<le> k" and "length c \<le> k + 1"
  shows "drop (length (drop (length c - k) c @ [x]) + n - (k + 1)) ((drop (length c - k) c @ [x]) @ xs)
           = drop (length c + Suc n - (k + 1)) (c @ x # xs)"
proof (cases "length c \<le> k")
  case True
  then show ?thesis by simp
next
  case False
  then have l: "length c = k + 1" using assms(2) by simp
  then have "drop (length c - k) c = drop 1 c" by simp
  then show ?thesis using l assms(1) by (simp add: drop_Cons')
qed

lemma actor_loop_snd_step:
  assumes "snd (handle ord d st req) = Inr st'"
  shows "snd (actor_loop ord d st (Recv req # rest)) = snd (actor_loop ord d st' rest)"
  using assms
  by (cases "handle ord d st req"; cases "actor_loop ord d st' rest") auto

text \<open>
  With a positive depth \<open>k\<close> and subscribers that keep receiving, a run of sends leaves
  the last \<open>k + 1\<close> items in the cache.
\<close>

lemma sends_keep_depth_plus_one:
  assumes "0 <s d" and "receivers st = never_done"
    and "length (cache st) \<le> nat (sint d) + 1"
    and "length (cache st) + length xs < 2 ^ 63 - 1"
  shows "snd (actor_loop ord d st (map (\<lambda>x. Recv (SendItemReq x)) xs))
           = Selecting (st\<lparr>cache := drop (length (cache st) + length xs - (nat (sint d) + 1))
                                         (cache st @ xs)\<rparr>)"
  using assms(2,3,4)
proof (induction xs arbitrary: st)
  case Nil
  then show ?case by simp
next
  case (Cons x xs)
  let ?k = "nat (sint d)"
  let ?c = "drop (length (cache st) - ?k) (cache st) @ [x]"
  let ?st = "st\<lparr>cache := ?c\<rparr>"
  let ?sends = "map (\<lambda>x. Recv (SendItemReq x))"
  have k: "1 \<le> ?k" using assms(1) by (simp add: word_sless_alt)
  have l: "length (cache st) < 2 ^ 63 - 1" using Cons.prems(3) by simp
  have p: "receivers ?st = never_done" "length (cache ?st) \<le> ?k + 1"
    "length (cache ?st) + length xs < 2 ^ 63 - 1"
    using Cons.prems by auto
  have "snd (actor_loop ord d st (?sends (x # xs))) = snd (actor_loop ord d ?st (?sends xs))"
    unfolding list.map
    by (rule actor_loop_snd_step [OF send_step_pos [OF assms(1) l Cons.prems(1)]])
  also have "\<dots> = Selecting (?st\<lparr>cache := drop (length (cache ?st) + length xs - (?k + 1))
                                         (cache ?st @ xs)\<rparr>)"
    by (rule Cons.IH [OF p])
  also have "\<dots> = Selecting (st\<lparr>cache := drop (length (cache st) + Suc (length xs) - (?k + 1))
                                         (cache st @ x # xs)\<rparr>)"
    using drop_step [OF k Cons.prems(2), of x "length xs" xs] by simp
  finally show ?case by simp
qed

section \<open>Events and the subscription table\<close>

lemma subs_inv_init: "subs_inv (init rcv)"
  by (simp add: subs_inv_def init_def)

lemma chan_log_append: "chan_log c (evs @ evs') = chan_log c evs @ chan_log c evs'"
  by (induction c evs rule: chan_log.induct) auto

lemma chan_log_prefix: "prefix evs evs' \<Longrightarrow> prefix (chan_log c evs) (chan_log c evs')"
  by (auto simp: prefix_def chan_log_append)

lemma chan_log_replay:
  "chan_log c (map (\<lambda>x. Update c' (UpdateMessage x)) xs) = (if c' = c then map UpdateMessage xs else [])"
  by (induction xs) auto

lemma chan_log_sends_distinct:
  "distinct cs \<Longrightarrow> chan_log c (map (\<lambda>sub. Update sub m) cs) = (if c \<in> set cs then [m] else [])"
  by (induction cs) auto

lemma chan_log_sends_notin:
  "c \<notin> set cs \<Longrightarrow> chan_log c (map (\<lambda>sub. Update sub m) cs) = []"
  by (induction cs) auto

lemma range_subs_set: "set (range_subs ord m) \<subseteq> ran m"
  by (auto simp: range_subs_def List.map_filter_def ran_def)

lemma range_subs_ok:
  assumes "range_ok ord" and "finite (dom m)" and "inj_on m (dom m)"
  shows "distinct (range_subs ord m)" and "set (range_subs ord m) = ran m"
proof -
  have o: "set (ord m) = dom m" "distinct (ord m)"
    using assms(1,2) by (simp_all add: range_ok_def)
  then have f: "filter (\<lambda>k. m k \<noteq> None) (ord m) = ord m"
    by (auto simp: filter_id_conv)
  have r: "range_subs ord m = map (the \<circ> m) (ord m)"
    by (simp only: range_subs_def List.map_filter_def f)
  have "inj_on (the \<circ> m) (dom m)"
    using assms(3) by (fastforce simp: inj_on_def dom_def)
  then show "distinct (range_subs ord m)"
    using o by (simp add: r distinct_map)
  show "set (range_subs ord m) = ran m"
    using o by (force simp: r ran_def dom_def)
qed

text \<open>The events of the two loops are a beginning of the sends the loop is to make.\<close>

lemma broadcast_prefix:
  "prefix (fst (broadcast ord st x))
     (map (\<lambda>sub. Update sub (UpdateMessage x)) (range_subs ord (subscriptions st)))"
  using hand_off_prefix [of "receivers st"
      "map (\<lambda>sub. (sub, UpdateMessage x)) (range_subs ord (subscriptions st))"]
  by (simp add: broadcast_def comp_def)

lemma replay_prefix:
  "prefix (fst (replay st c)) (map (\<lambda>x. Update c (UpdateMessage x)) (cache st))"
  using hand_off_prefix [of "receivers st" "map (\<lambda>x. (c, UpdateMessage x)) (cache st)"]
  by (simp add: replay_def comp_def)

lemma handle_send_events:
  assumes "handle ord d st (SendItemReq x) = (evs, r)"
  shows "evs = fst (broadcast ord st x) \<or> evs = fst (broadcast ord st x) @ [Resp SendItemRes]"
  using assms by (auto split: prod.splits sum.splits)

lemma handle_sub_events:
  assumes "handle ord d st (SubItemsReq tail) = (evs, r)"
  shows "\<exists>es. evs = Resp (SubItemsRes (nextSubId st) (chans_made st)) # es
              \<and> prefix es (map (\<lambda>x. Update (chans_made st) (UpdateMessage x)) (cache st))
              \<and> (\<not> tail \<longrightarrow> es = [])"
proof (cases tail)
  case True
  then show ?thesis
    using assms replay_prefix [of st "chans_made st"]
    by (auto simp: Let_def split: prod.splits sum.splits)
next
  case False
  then show ?thesis
    using assms by (auto simp: Let_def)
qed

lemma handle_sub_state:
  assumes "handle ord d st (SubItemsReq tail) = (evs, Inr st')"
  shows "subscriptions st' = (subscriptions st)(nextSubId st \<mapsto> chans_made st)"
    and "chans_made st' = Suc (chans_made st)"
    and "nextSubId st' = nextSubId st + 1"
    and "cache st' = cache st"
  using assms by (auto simp: Let_def split: prod.splits sum.splits if_splits)

lemma handle_send_state:
  assumes "handle ord d st (SendItemReq x) = (evs, Inr st')"
  shows "subscriptions st' = subscriptions st" and "chans_made st' = chans_made st"
    and "nextSubId st' = nextSubId st"
  using assms by (auto split: prod.splits sum.splits)

lemma handle_inv:
  assumes "subs_inv st" and "handle ord d st req = (evs, Inr st')"
  shows "subs_inv st'" and "chans_made st \<le> chans_made st'"
proof -
  show "chans_made st \<le> chans_made st'"
  proof (cases req)
    case (SubItemsReq tail)
    then show ?thesis using handle_sub_state(2) assms(2) by fastforce
  next
    case (SendItemReq x)
    then show ?thesis using handle_send_state(2) assms(2) by fastforce
  qed (use assms(2) in auto)
  show "subs_inv st'"
  proof (cases req)
    case (CancelSubReq i)
    then have st': "st' = st\<lparr>subscriptions := (subscriptions st)(i := None)\<rparr>"
      using assms(2) by simp
    have "inj_on ((subscriptions st)(i := None)) (dom (subscriptions st) - {i})"
      using assms(1) by (auto simp: subs_inv_def inj_on_def)
    then show ?thesis
      using assms(1) by (auto simp: subs_inv_def st')
  next
    case (SubItemsReq tail)
    note s = handle_sub_state [OF assms(2) [unfolded SubItemsReq]]
    have "inj_on ((subscriptions st)(nextSubId st \<mapsto> chans_made st)) (insert (nextSubId st) (dom (subscriptions st)))"
      using assms(1) unfolding subs_inv_def inj_on_def
      by (auto split: if_splits) (metis less_irrefl)+
    then show ?thesis
      using assms(1) by (auto simp: subs_inv_def s less_Suc_eq)
  next
    case (SendItemReq x)
    note s = handle_send_state [OF assms(2) [unfolded SendItemReq]]
    show ?thesis
      using assms(1) by (simp add: subs_inv_def s)
  next
    case CountItemsReq
    then show ?thesis using assms by auto
  next
    case ClearItemsReq
    then show ?thesis using assms by (auto simp: subs_inv_def)
  qed
qed

lemma handle_fresh:
  assumes "subs_inv st" and "handle ord d st req = (evs, r)" and "chans_made st \<le> c"
  shows "(\<forall>tail. req \<noteq> SubItemsReq tail) \<Longrightarrow> chan_log c evs = []"
    and "chans_made st < c \<Longrightarrow> chan_log c evs = []"
proof -
  have notin: "c \<notin> set (range_subs ord (subscriptions st))"
    using assms(1,3) range_subs_set [of ord "subscriptions st"]
    by (fastforce simp: subs_inv_def ran_def)
  have bc: "chan_log c (fst (broadcast ord st x)) = []" for x
    using chan_log_prefix [OF broadcast_prefix, of c ord st x] notin
    by (simp add: chan_log_sends_notin)
  have send: "chan_log c evs = []" if "req = SendItemReq x" for x
    using handle_send_events [OF assms(2) [unfolded that]] bc
    by (auto simp: chan_log_append)
  show "(\<forall>tail. req \<noteq> SubItemsReq tail) \<Longrightarrow> chan_log c evs = []"
    using assms(2) send by (cases req) auto
  show "chan_log c evs = []" if "chans_made st < c"
  proof (cases req)
    case (SubItemsReq tail)
    obtain es where es: "evs = Resp (SubItemsRes (nextSubId st) (chans_made st)) # es"
      "prefix es (map (\<lambda>x. Update (chans_made st) (UpdateMessage x)) (cache st))"
      using handle_sub_events [OF assms(2) [unfolded SubItemsReq]] by blast
    show ?thesis
      using chan_log_prefix [OF es(2), of c] that by (simp add: es(1) chan_log_replay)
  next
    case (SendItemReq x)
    then show ?thesis by (rule send)
  qed (use assms(2) in auto)
qed

lemma handle_at_most_once:
  assumes "subs_inv st" and "range_ok ord" and "handle ord d st req = (evs, r)"
    and "c < chans_made st"
  shows "map item (chan_log c evs) = [] \<or> (\<exists>x. req = SendItemReq x \<and> map item (chan_log c evs) = [x])"
proof (cases req)
  case (SendItemReq x)
  have "distinct (range_subs ord (subscriptions st))"
    using assms(1,2) by (intro range_subs_ok) (auto simp: subs_inv_def)
  then have "prefix (chan_log c (fst (broadcast ord st x)))
               (if c \<in> set (range_subs ord (subscriptions st)) then [UpdateMessage x] else [])"
    using chan_log_prefix [OF broadcast_prefix, of c ord st x]
    by (simp add: chan_log_sends_distinct)
  then have "chan_log c (fst (broadcast ord st x)) = []
              \<or> chan_log c (fst (broadcast ord st x)) = [UpdateMessage x]"
    by (auto simp: prefix_Cons split: if_splits)
  then show ?thesis
    using handle_send_events [OF assms(3) [unfolded SendItemReq]] SendItemReq
    by (auto simp: chan_log_append)
next
  case (SubItemsReq tail)
  obtain es where es: "evs = Resp (SubItemsRes (nextSubId st) (chans_made st)) # es"
    "prefix es (map (\<lambda>x. Update (chans_made st) (UpdateMessage x)) (cache st))"
    using handle_sub_events [OF assms(3) [unfolded SubItemsReq]] by blast
  show ?thesis
    using chan_log_prefix [OF es(2), of c] assms(4) by (simp add: es(1) chan_log_replay)
qed (use assms(3) in auto)

lemma loop_inv:
  assumes "subs_inv st" and "actor_loop ord d st sels = (evs, Selecting st')"
  shows "subs_inv st' \<and> chans_made st \<le> chans_made st'
         \<and> (\<forall>c. chans_made st' \<le> c \<longrightarrow> chan_log c evs = [])"
  using assms
proof (induction sels arbitrary: st evs)
  case Nil
  then show ?case by auto
next
  case (Cons s sels)
  show ?case
  proof (cases s)
    case CtxDone
    with Cons.prems show ?thesis by simp
  next
    case (Recv req)
    obtain evs1 r where h: "handle ord d st req = (evs1, r)"
      by (cases "handle ord d st req")
    then obtain st1 where r: "r = Inr st1"
      using Cons.prems(2) Recv by (cases r) (auto split: halt.splits)
    obtain evs2 out where l: "actor_loop ord d st1 sels = (evs2, out)"
      by (cases "actor_loop ord d st1 sels")
    have out: "out = Selecting st'" and evs: "evs = evs1 @ evs2"
      using Cons.prems(2) Recv h r l by auto
    have i1: "subs_inv st1" and m1: "chans_made st \<le> chans_made st1"
      using handle_inv [OF Cons.prems(1) h [unfolded r]] by auto
    have ih: "subs_inv st' \<and> chans_made st1 \<le> chans_made st'
         \<and> (\<forall>c. chans_made st' \<le> c \<longrightarrow> chan_log c evs2 = [])"
      using Cons.IH [OF i1 l [unfolded out]] .
    have "chan_log c evs1 = []" if "chans_made st' \<le> c" for c
    proof (cases "chans_made st < c")
      case True
      then show ?thesis using handle_fresh(2) [OF Cons.prems(1) h] by simp
    next
      case False
      then have eq: "chans_made st1 = chans_made st" "c = chans_made st"
        using that ih m1 by auto
      then have "\<forall>tail. req \<noteq> SubItemsReq tail"
        using h r handle_sub_state(2) by fastforce
      then show ?thesis using handle_fresh(1) [OF Cons.prems(1) h] eq by simp
    qed
    then show ?thesis
      using ih m1 by (auto simp: evs chan_log_append)
  qed
qed

lemma loop_subseq:
  assumes "subs_inv st" and "range_ok ord" and "c < chans_made st"
  shows "subseq (map item (chan_log c (fst (actor_loop ord d st sels)))) (sent_items sels)"
  using assms
proof (induction sels arbitrary: st)
  case Nil
  then show ?case by simp
next
  case (Cons s sels)
  show ?case
  proof (cases s)
    case CtxDone
    then show ?thesis by simp
  next
    case (Recv req)
    obtain evs1 r where h: "handle ord d st req = (evs1, r)"
      by (cases "handle ord d st req")
    note once = handle_at_most_once [OF Cons.prems(1,2) h Cons.prems(3)]
    show ?thesis
    proof (cases r)
      case (Inl p)
      then have "fst (actor_loop ord d st (s # sels)) = evs1"
        using Recv h by (simp split: halt.splits)
      then show ?thesis
        using once Recv by (auto simp: subseq_Cons2_iff)
    next
      case (Inr st1)
      have i1: "subs_inv st1" and m1: "chans_made st \<le> chans_made st1"
        using handle_inv [OF Cons.prems(1) h [unfolded Inr]] by auto
      have ih: "subseq (map item (chan_log c (fst (actor_loop ord d st1 sels)))) (sent_items sels)"
        using Cons.IH [OF i1 Cons.prems(2)] Cons.prems(3) m1 by simp
      have "fst (actor_loop ord d st (s # sels)) = evs1 @ fst (actor_loop ord d st1 sels)"
        using Recv h Inr by (simp split: prod.splits)
      then show ?thesis
        using once ih Recv
        by (cases req) (auto simp: chan_log_append)
    qed
  qed
qed

lemma distinct_singleton_set:
  assumes "distinct xs" and "set xs = {c}"
  shows "xs = [c]"
proof (cases xs)
  case Nil
  then show ?thesis using assms(2) by simp
next
  case (Cons a l)
  then have a: "a = c" using assms(2) by auto
  have "set l \<subseteq> {c}" "c \<notin> set l"
    using assms Cons a by auto
  then have "l = []" by (cases l) auto
  then show ?thesis using Cons a by simp
qed

lemma range_subs_single:
  assumes "range_ok ord"
  shows "range_subs ord [k \<mapsto> c] = [c]"
proof -
  have "distinct (range_subs ord [k \<mapsto> c])" and "set (range_subs ord [k \<mapsto> c]) = {c}"
    using range_subs_ok [OF assms, of "[k \<mapsto> c]"] by simp_all
  then show ?thesis
    by (rule distinct_singleton_set)
qed

lemma evict_short:
  assumes "0 \<le>s d \<or> d = - (2 ^ 63) \<or> d = - (2 ^ 63) + 1" and "length c \<le> 1"
  shows "evict d c = Inr c"
proof -
  consider "d = 0" | "d \<noteq> 0" "0 \<le>s d" | "d = - (2 ^ 63) \<or> d = - (2 ^ 63) + 1"
    using assms(1) by blast
  then show ?thesis
  proof cases
    case 1
    then show ?thesis by (simp add: evict_zero)
  next
    case 2
    have "sint d \<noteq> 0"
    proof
      assume "sint d = 0"
      then have "sint d = sint (0 :: go_int)" by simp
      then have "d = 0" by (rule signed_word_eqI)
      then show False using 2(1) by simp
    qed
    then have p: "0 <s d" using 2(2) by (simp add: word_sless_alt word_sle_eq)
    then have "1 \<le> nat (sint d)" by (simp add: word_sless_alt)
    then show ?thesis
      using assms(2) by (simp add: evict_pos [OF p])
  next
    case 3
    have "length c < 2 ^ 63 - 1" using assms(2) by simp
    with 3 show ?thesis by (rule evict_wrapped)
  qed
qed

lemma delivery_task_record_item:
  "delivery_task record_item log (map UpdateC ms) = (log @ map item ms, False)"
  by (induction ms arbitrary: log) (simp_all add: record_item_def)

lemma range_ok_sorted_order: "range_ok sorted_order"
  by (simp add: range_ok_def sorted_order_def)

lemma range_subs_sorted_single: "range_subs sorted_order [k \<mapsto> c] = [c]"
  by (simp add: range_subs_def sorted_order_def List.map_filter_simps)

lemmas run_simps = init_def evict_def len_def slice_from_def range_subs_empty word_sless_alt
  broadcast_def replay_def

section \<open>What the cache holds\<close>

text \<open>
  C1. With depth 2 and the sends of \<open>a\<close>, \<open>b\<close>, \<open>c\<close> the cache should hold \<open>b\<close>, \<open>c\<close>
  and the count be 2. The server keeps all three: when the third send arrives
  \<^verbatim>\<open>overflow\<close> is 1 and \<^verbatim>\<open>cache[overflow-1:]\<close> drops nothing, so the count case
  answers 3. By \<open>sends_keep_depth_plus_one\<close> a positive depth \<open>k\<close> always leaves the last
  \<open>k + 1\<close> items.
\<close>

theorem depth_2_keeps_three:
  "actor_loop ord 2 (init rcv)
     [Recv (SendItemReq ''a''), Recv (SendItemReq ''b''), Recv (SendItemReq ''c''), Recv CountItemsReq]
   = ([Resp SendItemRes, Resp SendItemRes, Resp SendItemRes, Resp (CountItemsRes 3)],
      Selecting ((init rcv)\<lparr>cache := [''a'', ''b'', ''c'']\<rparr>))"
  by (simp add: run_simps)

text \<open>
  C3. A depth below 1 should leave the cache unbounded. With depth \<open>-1\<close> the first send
  panics in the slice expression, in the server loop and so for the caller of
  \<^verbatim>\<open>router.Send\<close>.
\<close>

theorem negative_depth_send_panics:
  "actor_loop ord (- 1) (init rcv) [Recv (SendItemReq x)] = ([], Panicked SliceBoundsOutOfRange)
   \<and> router_Send ord (- 1) (init rcv) x
       = ([], ServerPanics SliceBoundsOutOfRange, Inl (Panic SliceBoundsOutOfRange))"
  by (simp add: run_simps router_Send_def transact_def)

text \<open>
  C5. With a depth of at least 1 the cache should never be longer than the depth. With
  depth 1, two sends leave two items in the cache, in the order of the sends, and the
  count case answers 2.
\<close>

theorem depth_1_holds_two:
  "actor_loop ord 1 (init rcv) [Recv (SendItemReq x), Recv (SendItemReq y), Recv CountItemsReq]
   = ([Resp SendItemRes, Resp SendItemRes, Resp (CountItemsRes 2)],
      Selecting ((init rcv)\<lparr>cache := [x, y]\<rparr>))"
  by (simp add: run_simps)

text \<open>
  C10. For every negative depth except the two smallest values of \<^verbatim>\<open>int\<close>, a send that
  finds the cache empty (the first send) does not finish: the guard only tests that the
  depth is not 0, \<^verbatim>\<open>overflow\<close> is \<open>1 - cacheDepth\<close>, at least 2, and the slice expression
  \<^verbatim>\<open>cache[overflow-1:]\<close> on the empty cache is out of range. Once the broadcast before it
  has completed the send panics, which ends the server loop; from the initial state,
  where nobody has subscribed, it always does. With depth 0 the eviction leaves every
  cache as it is.
\<close>

theorem negative_depth_first_send_panics:
  assumes "d <s 0" and "d \<noteq> - (2 ^ 63)" and "d \<noteq> - (2 ^ 63) + 1" and "cache st = []"
  shows "d \<noteq> 0
     \<and> len (cache st) + 1 - d = 1 - d \<and> 2 \<le>s len (cache st) + 1 - d
     \<and> slice_from (cache st) (len (cache st) + 1 - d - 1) = Inl SliceBoundsOutOfRange
     \<and> evict d (cache st) = Inl SliceBoundsOutOfRange
     \<and> snd (handle ord d st (SendItemReq x))
         = (case snd (broadcast ord st x) of
              Inl c \<Rightarrow> Inl (Blocked c) | Inr rcv \<Rightarrow> Inl (Panic SliceBoundsOutOfRange))
     \<and> snd (actor_loop ord d st (Recv (SendItemReq x) # rest))
         = (case snd (broadcast ord st x) of
              Inl c \<Rightarrow> BlockedOn c | Inr rcv \<Rightarrow> Panicked SliceBoundsOutOfRange)
     \<and> snd (handle ord d (init rcv0) (SendItemReq x)) = Inl (Panic SliceBoundsOutOfRange)
     \<and> snd (actor_loop ord d (init rcv0) (Recv (SendItemReq x) # rest))
         = Panicked SliceBoundsOutOfRange
     \<and> evict 0 c = Inr c"
proof -
  note e = evict_neg_empty [OF assms(1,2,3), where 'a='a]
  have "d \<noteq> 0" using assms(1) by auto
  moreover have "len (cache st) + 1 - d = 1 - d" by (simp add: assms(4) len_def)
  moreover have "snd (handle ord d st (SendItemReq x))
         = (case snd (broadcast ord st x) of
              Inl c \<Rightarrow> Inl (Blocked c) | Inr rcv \<Rightarrow> Inl (Panic SliceBoundsOutOfRange))"
    by (simp add: assms(4) e(3) split: prod.splits sum.splits)
  moreover have "snd (actor_loop ord d st (Recv (SendItemReq x) # rest))
         = (case snd (broadcast ord st x) of
              Inl c \<Rightarrow> BlockedOn c | Inr rcv \<Rightarrow> Panicked SliceBoundsOutOfRange)"
    by (simp add: assms(4) e(3) split: prod.splits sum.splits)
  moreover have "snd (handle ord d (init rcv0) (SendItemReq x)) = Inl (Panic SliceBoundsOutOfRange)"
    using e(3) by (simp add: init_def broadcast_def range_subs_empty)
  moreover have "snd (actor_loop ord d (init rcv0) (Recv (SendItemReq x) # rest))
         = Panicked SliceBoundsOutOfRange"
    using e(3) by (simp add: init_def broadcast_def range_subs_empty)
  ultimately show ?thesis
    using e by (simp add: assms(4) evict_zero)
qed

theorem negative_depth_first_send_panics_witness:
  "(- 1 :: go_int) <s 0 \<and> (- 1 :: go_int) \<noteq> - (2 ^ 63) \<and> (- 1 :: go_int) \<noteq> - (2 ^ 63) + 1
   \<and> cache (init never_done :: string server) = []
   \<and> 2 \<le>s len (cache (init never_done :: string server)) + 1 - (- 1)
   \<and> evict (- 1) (cache (init never_done :: string server)) = Inl SliceBoundsOutOfRange
   \<and> snd (actor_loop sorted_order (- 1) (init never_done :: string server) [Recv (SendItemReq ''a'')])
       = Panicked SliceBoundsOutOfRange
   \<and> evict 0 [''a'', ''b''] = Inr [''a'', ''b'']"
proof -
  have h: "(- 1 :: go_int) <s 0" "(- 1 :: go_int) \<noteq> - (2 ^ 63)" "(- 1 :: go_int) \<noteq> - (2 ^ 63) + 1"
    "cache (init never_done :: string server) = []"
    by (simp_all add: word_sless_alt init_def)
  show ?thesis
    using h negative_depth_first_send_panics [OF h, of sorted_order "''a''" "[]" never_done
        "[''a'', ''b'']"]
    by blast
qed

text \<open>
  At the smallest \<^verbatim>\<open>int\<close> the subtraction \<open>1 - cacheDepth\<close> wraps around to a negative
  \<^verbatim>\<open>overflow\<close>: the sends succeed and nothing is ever evicted (\<open>evict_wrapped\<close>).
\<close>

theorem min_int_depth_send_succeeds:
  "actor_loop sorted_order (- (2 ^ 63)) (init never_done)
     [Recv (SendItemReq ''a''), Recv (SendItemReq ''b''), Recv (SendItemReq ''c'')]
   = ([Resp SendItemRes, Resp SendItemRes, Resp SendItemRes],
      Selecting ((init never_done)\<lparr>cache := [''a'', ''b'', ''c'']\<rparr>))"
  by (simp add: run_simps)

section \<open>The public functions that never reach the server\<close>

text \<open>
  C2. \<^verbatim>\<open>router.Items\<close> should return a copy of the cache. It never returns, whatever the
  state of the server: after a send that was answered, the cache holds the item and the
  call still blocks.
\<close>

theorem items_never_returns:
  "router_Items st = ([], BlocksForever, Inr st)
   \<and> router_Send ord 0 (init rcv) x
       = ([Resp SendItemRes], Returns SendItemRes, Inr ((init rcv)\<lparr>cache := [x]\<rparr>))
   \<and> router_Items ((init rcv)\<lparr>cache := [x]\<rparr>)
       = ([], BlocksForever, Inr ((init rcv)\<lparr>cache := [x]\<rparr>))"
  by (simp add: run_simps router_Send_def transact_def router_Items_def await_def)

text \<open>
  C4. \<^verbatim>\<open>router.Count\<close> should return the length of the cache. It never returns; a
  caller that did send the request on \<^verbatim>\<open>countC\<close> would be answered with the length.
\<close>

theorem count_never_returns:
  "router_Count st = ([], BlocksForever, Inr st)
   \<and> transact ord d st CountItemsReq
       = ([Resp (CountItemsRes (len (cache st)))], Returns (CountItemsRes (len (cache st))), Inr st)"
  by (simp add: router_Count_def await_def transact_def)

text \<open>
  C7. \<^verbatim>\<open>router.Clear\<close> should empty the cache and change nothing else. It never returns
  and the cache keeps its items; a caller that did send the request on \<^verbatim>\<open>clearC\<close> would
  find the cache emptied and the rest of the state as it was.
\<close>

theorem clear_never_returns:
  "router_Clear st = ([], BlocksForever, Inr st)
   \<and> router_Send ord 0 (init rcv) x
       = ([Resp SendItemRes], Returns SendItemRes, Inr ((init rcv)\<lparr>cache := [x]\<rparr>))
   \<and> router_Clear ((init rcv)\<lparr>cache := [x]\<rparr>)
       = ([], BlocksForever, Inr ((init rcv)\<lparr>cache := [x]\<rparr>))
   \<and> transact ord d st ClearItemsReq
       = ([Resp ClearItemsRes], Returns ClearItemsRes, Inr (st\<lparr>cache := []\<rparr>))"
  by (simp add: run_simps router_Send_def transact_def router_Clear_def await_def)

section \<open>Subscribers whose context is done\<close>

text \<open>
  A send to a subscriber that has stopped receiving blocks the server, and with it the
  caller of \<^verbatim>\<open>router.Send\<close>. A tail registration of such a subscriber returns to its
  caller, and the server blocks in the replay.
\<close>

lemma send_blocks_on_done_subscriber:
  "router_Send sorted_order d
     \<lparr>cache = [], nextSubId = 1001, subscriptions = [1000 \<mapsto> 0], chans_made = 1,
      receivers = done_at_once\<rparr> x
   = ([], BlocksForever, Inl (Blocked 0))"
  by (simp add: router_Send_def transact_def broadcast_def range_subs_sorted_single
      done_at_once_def await_def)

lemma tail_returns_and_server_blocks:
  "router_Tail ord d ((init done_at_once)\<lparr>cache := [x]\<rparr>)
   = ([Resp (SubItemsRes 1000 0)], Returns (SubItemsRes 1000 0), Inl (Blocked 0))"
  by (simp add: router_Tail_def sub_def transact_def replay_def init_def done_at_once_def await_def)

section \<open>Registering a subscription\<close>

lemma takes_will_take: "takes r n \<Longrightarrow> will_take r n = n"
  by (auto simp: takes_def will_take_def split: option.splits)

lemma replay_takes:
  assumes "takes (receivers st c) (length (cache st))"
  shows "fst (replay st c) = map (\<lambda>x. Update c (UpdateMessage x)) (cache st)"
    and "\<exists>rcv. snd (replay st c) = Inr rcv"
proof -
  show "fst (replay st c) = map (\<lambda>x. Update c (UpdateMessage x)) (cache st)"
    by (simp add: replay_def hand_off_same_chan_fst takes_will_take [OF assms])
  have "snd (replay st c) \<noteq> Inl c'" for c'
    using assms by (simp add: replay_def hand_off_same_chan_snd)
  then show "\<exists>rcv. snd (replay st c) = Inr rcv"
    by (cases "snd (replay st c)") auto
qed

lemma handle_tail_fst:
  "fst (handle ord d st (SubItemsReq True))
     = Resp (SubItemsRes (nextSubId st) (chans_made st)) # fst (replay st (chans_made st))"
  by (cases "replay st (chans_made st)") (auto simp: Let_def split: sum.splits)

text \<open>
  C6. A registration with \<^verbatim>\<open>tail\<close> set sends the response first and then, in the same
  case of the \<^verbatim>\<open>select\<close>, the items of the cache on the new channel, in cache order, as
  far as the subscriber's goroutine takes them. When the goroutine takes as many updates
  as the cache holds, the events after the response are the replay of the whole cache and
  the server goes on. A tail subscriber registered before any send, followed by the sends
  of \<open>a\<close> and \<open>b\<close> that are both answered, gets \<open>a\<close> and then \<open>b\<close> on its channel, once
  each, and its goroutine calls the callback on \<open>a\<close> and then on \<open>b\<close>.
\<close>

theorem tail_replays_after_response:
  assumes "range_ok ord"
  shows "fst (handle ord d st (SubItemsReq True))
           = Resp (SubItemsRes (nextSubId st) (chans_made st))
               # map (\<lambda>x. Update (chans_made st) (UpdateMessage x))
                   (take (will_take (receivers st (chans_made st)) (length (cache st))) (cache st))
     \<and> (takes (receivers st (chans_made st)) (length (cache st)) \<longrightarrow>
          after_response (fst (handle ord d st (SubItemsReq True)))
            = map (\<lambda>x. Update (chans_made st) (UpdateMessage x)) (cache st)
          \<and> chan_log (chans_made st) (fst (handle ord d st (SubItemsReq True)))
            = map UpdateMessage (cache st)
          \<and> (\<exists>st'. snd (handle ord d st (SubItemsReq True)) = Inr st'))
     \<and> (actor_loop ord d (init rcv)
            [Recv (SubItemsReq True), Recv (SendItemReq a), Recv (SendItemReq b)]
          = (evs, Selecting st1) \<longrightarrow>
          evs = [Resp (SubItemsRes 1000 0), Update 0 (UpdateMessage a), Resp SendItemRes,
                 Update 0 (UpdateMessage b), Resp SendItemRes]
          \<and> chan_log 0 evs = [UpdateMessage a, UpdateMessage b]
          \<and> delivery_task onItem s (map UpdateC (chan_log 0 evs)) = (onItem b (onItem a s), False))"
proof (intro conjI impI)
  show e: "fst (handle ord d st (SubItemsReq True))
           = Resp (SubItemsRes (nextSubId st) (chans_made st))
               # map (\<lambda>x. Update (chans_made st) (UpdateMessage x))
                   (take (will_take (receivers st (chans_made st)) (length (cache st))) (cache st))"
    by (simp only: handle_tail_fst replay_def hand_off_same_chan_fst)
  {
    assume t: "takes (receivers st (chans_made st)) (length (cache st))"
    show "after_response (fst (handle ord d st (SubItemsReq True)))
            = map (\<lambda>x. Update (chans_made st) (UpdateMessage x)) (cache st)"
      by (simp only: e takes_will_take [OF t] after_response.simps take_all order_refl)
    show "chan_log (chans_made st) (fst (handle ord d st (SubItemsReq True)))
            = map UpdateMessage (cache st)"
      by (simp only: e takes_will_take [OF t] take_all order_refl)
         (simp add: chan_log_replay)
    show "\<exists>st'. snd (handle ord d st (SubItemsReq True)) = Inr st'"
      using replay_takes(2) [OF t] by (auto simp: Let_def split: prod.splits)
  }
  {
    assume run: "actor_loop ord d (init rcv)
            [Recv (SubItemsReq True), Recv (SendItemReq a), Recv (SendItemReq b)]
          = (evs, Selecting st1)"
    then show evs: "evs = [Resp (SubItemsRes 1000 0), Update 0 (UpdateMessage a), Resp SendItemRes,
                 Update 0 (UpdateMessage b), Resp SendItemRes]"
      by (auto simp: init_def replay_def broadcast_def range_subs_single [OF assms]
               split: if_splits sum.splits halt.splits)
    show "chan_log 0 evs = [UpdateMessage a, UpdateMessage b]"
      by (simp add: evs)
    show "delivery_task onItem s (map UpdateC (chan_log 0 evs)) = (onItem b (onItem a s), False)"
      by (simp add: evs)
  }
qed

text \<open>
  The two sends are answered when the depth is not negative, or is one of the two
  smallest values of \<^verbatim>\<open>int\<close>, and the subscriber takes two updates.
\<close>

lemma tail_scenario_completes:
  assumes "range_ok ord" and "0 \<le>s d \<or> d = - (2 ^ 63) \<or> d = - (2 ^ 63) + 1"
    and "takes (rcv 0) 2"
  shows "\<exists>st1. snd (actor_loop ord d (init rcv)
            [Recv (SubItemsReq True), Recv (SendItemReq a), Recv (SendItemReq b)]) = Selecting st1"
proof -
  have r: "rcv 0 \<noteq> Some 0" "took rcv 0 0 \<noteq> Some 0"
    using assms(3) by (auto simp: takes_def took_def split: option.splits)
  show ?thesis
    using r
    by (simp add: init_def replay_def broadcast_def range_subs_single [OF assms(1)]
        evict_short [OF assms(2)])
qed

theorem tail_replays_after_response_witness:
  "range_ok sorted_order
   \<and> takes (receivers ((init never_done)\<lparr>cache := [''x'', ''y'']\<rparr>)
        (chans_made ((init never_done)\<lparr>cache := [''x'', ''y'']\<rparr>)))
        (length (cache ((init never_done)\<lparr>cache := [''x'', ''y'']\<rparr>)))
   \<and> after_response (fst (handle sorted_order 2 ((init never_done)\<lparr>cache := [''x'', ''y'']\<rparr>)
        (SubItemsReq True)))
       = [Update 0 (UpdateMessage ''x''), Update 0 (UpdateMessage ''y'')]
   \<and> actor_loop sorted_order 2 (init never_done)
        [Recv (SubItemsReq True), Recv (SendItemReq ''a''), Recv (SendItemReq ''b'')]
       = ([Resp (SubItemsRes 1000 0), Update 0 (UpdateMessage ''a''), Resp SendItemRes,
           Update 0 (UpdateMessage ''b''), Resp SendItemRes],
          Selecting \<lparr>cache = [''a'', ''b''], nextSubId = 1001, subscriptions = [1000 \<mapsto> 0],
                     chans_made = 1, receivers = never_done\<rparr>)
   \<and> delivery_task record_item []
        (map UpdateC (chan_log 0
           [Resp (SubItemsRes 1000 0), Update 0 (UpdateMessage ''a''), Resp SendItemRes,
            Update 0 (UpdateMessage ''b''), Resp SendItemRes]))
       = ([''a'', ''b''], False)"
proof -
  have h1: "range_ok sorted_order"
    by (rule range_ok_sorted_order)
  have h2: "takes (receivers ((init never_done)\<lparr>cache := [''x'', ''y'']\<rparr>)
        (chans_made ((init never_done)\<lparr>cache := [''x'', ''y'']\<rparr>)))
        (length (cache ((init never_done)\<lparr>cache := [''x'', ''y'']\<rparr>)))"
    by (simp add: takes_def never_done_def init_def)
  have nd: "never_done 0 \<noteq> Some 0" "took never_done 0 = never_done"
    by (simp_all add: never_done_def took_never_done)
  have h3: "actor_loop sorted_order 2 (init never_done)
        [Recv (SubItemsReq True), Recv (SendItemReq ''a''), Recv (SendItemReq ''b'')]
       = ([Resp (SubItemsRes 1000 0), Update 0 (UpdateMessage ''a''), Resp SendItemRes,
           Update 0 (UpdateMessage ''b''), Resp SendItemRes],
          Selecting \<lparr>cache = [''a'', ''b''], nextSubId = 1001, subscriptions = [1000 \<mapsto> 0],
                     chans_made = 1, receivers = never_done\<rparr>)"
    by (simp add: run_simps range_subs_sorted_single nd)
  note w = tail_replays_after_response [OF h1, of 2 "(init never_done)\<lparr>cache := [''x'', ''y'']\<rparr>"
      never_done "''a''" "''b''"
      "[Resp (SubItemsRes 1000 0), Update 0 (UpdateMessage ''a''), Resp SendItemRes,
        Update 0 (UpdateMessage ''b''), Resp SendItemRes]"
      "\<lparr>cache = [''a'', ''b''], nextSubId = 1001, subscriptions = [1000 \<mapsto> 0],
        chans_made = 1, receivers = never_done\<rparr>" record_item "[]"]
  have c1: "after_response (fst (handle sorted_order 2 ((init never_done)\<lparr>cache := [''x'', ''y'']\<rparr>)
        (SubItemsReq True)))
       = [Update 0 (UpdateMessage ''x''), Update 0 (UpdateMessage ''y'')]"
    using w [THEN conjunct2, THEN conjunct1, rule_format, OF h2, THEN conjunct1]
    by (simp add: init_def)
  have c2: "delivery_task record_item []
        (map UpdateC (chan_log 0
           [Resp (SubItemsRes 1000 0), Update 0 (UpdateMessage ''a''), Resp SendItemRes,
            Update 0 (UpdateMessage ''b''), Resp SendItemRes]))
       = ([''a'', ''b''], False)"
    using w [THEN conjunct2, THEN conjunct2, rule_format, OF h3, THEN conjunct2, THEN conjunct2]
    by (simp add: record_item_def)
  show ?thesis
    using h1 h2 h3 c1 c2 by blast
qed

text \<open>
  The response precedes the replay: with \<open>a\<close> in the cache, the update carrying \<open>a\<close> is
  sent after the response to the registration. And a subscriber whose context is done
  takes nothing: the replay sends no item and the server blocks.
\<close>

theorem tail_response_precedes_replay:
  "fst (actor_loop sorted_order 0 (init never_done)
          [Recv (SendItemReq ''a''), Recv (SubItemsReq True)])
     = [Resp SendItemRes, Resp (SubItemsRes 1000 0), Update 0 (UpdateMessage ''a'')]
   \<and> after_response (fst (handle sorted_order 0 ((init never_done)\<lparr>cache := [''a'']\<rparr>)
        (SubItemsReq True)))
     = [Update 0 (UpdateMessage ''a'')]
   \<and> actor_loop sorted_order 0 (init done_at_once)
        [Recv (SendItemReq ''a''), Recv (SubItemsReq True)]
     = ([Resp SendItemRes, Resp (SubItemsRes 1000 0)], BlockedOn 0)"
  by (simp add: run_simps never_done_def done_at_once_def took_def)

text \<open>
  C9. Let the server have handled any selections \<open>pre\<close> and then register a subscription
  with \<^verbatim>\<open>tail\<close> not set. The registration sends the response and nothing else; the channel
  of the new subscription has carried no message up to then; and whatever the server
  handles afterwards, the items sent on that channel are, in order and at most once for
  each send, items of sends handled after the registration. So are the items the
  subscriber's goroutine passes to its callback, over the whole run.
\<close>

theorem subscribe_no_earlier_items:
  assumes "range_ok ord"
    and "actor_loop ord d (init rcv) pre = (evs1, Selecting st1)"
    and "handle ord d st1 (SubItemsReq False) = (evs2, Inr st2)"
    and "actor_loop ord d st2 post = (evs3, out)"
  shows "evs2 = [Resp (SubItemsRes (nextSubId st1) (chans_made st1))]
         \<and> subscriptions st2 (nextSubId st1) = Some (chans_made st1)
         \<and> chan_log (chans_made st1) (evs1 @ evs2) = []
         \<and> subseq (map item (chan_log (chans_made st1) evs3)) (sent_items post)
         \<and> subseq (fst (delivery_task record_item []
                             (map UpdateC (chan_log (chans_made st1) (evs1 @ evs2 @ evs3)))))
                    (sent_items post)"
proof -
  have i1: "subs_inv st1" and f1: "chan_log (chans_made st1) evs1 = []"
    using loop_inv [OF subs_inv_init assms(2)] by auto
  have e2: "evs2 = [Resp (SubItemsRes (nextSubId st1) (chans_made st1))]"
    using handle_sub_events [OF assms(3)] by auto
  have s2: "subscriptions st2 (nextSubId st1) = Some (chans_made st1)"
    and c2: "chans_made st1 < chans_made st2"
    using handle_sub_state [OF assms(3)] by auto
  have i2: "subs_inv st2"
    using handle_inv(1) [OF i1 assms(3)] .
  have "subseq (map item (chan_log (chans_made st1) (fst (actor_loop ord d st2 post)))) (sent_items post)"
    using loop_subseq [OF i2 assms(1) c2] .
  then show ?thesis
    using e2 s2 f1 assms(4) by (simp add: chan_log_append delivery_task_record_item)
qed

theorem subscribe_no_earlier_items_witness:
  "range_ok sorted_order
   \<and> actor_loop sorted_order 0 (init never_done) [Recv (SendItemReq ''a'')]
       = ([Resp SendItemRes],
          Selecting \<lparr>cache = [''a''], nextSubId = 1000, subscriptions = Map.empty, chans_made = 0,
            receivers = never_done\<rparr>)
   \<and> handle sorted_order 0
        \<lparr>cache = [''a''], nextSubId = 1000, subscriptions = Map.empty, chans_made = 0,
            receivers = never_done\<rparr>
        (SubItemsReq False)
       = ([Resp (SubItemsRes 1000 0)],
          Inr \<lparr>cache = [''a''], nextSubId = 1001, subscriptions = [1000 \<mapsto> 0], chans_made = 1,
            receivers = never_done\<rparr>)
   \<and> actor_loop sorted_order 0
        \<lparr>cache = [''a''], nextSubId = 1001, subscriptions = [1000 \<mapsto> 0], chans_made = 1,
            receivers = never_done\<rparr>
        [Recv (SendItemReq ''b'')]
       = ([Update 0 (UpdateMessage ''b''), Resp SendItemRes],
          Selecting \<lparr>cache = [''a'', ''b''], nextSubId = 1001, subscriptions = [1000 \<mapsto> 0],
                     chans_made = 1, receivers = never_done\<rparr>)
   \<and> chan_log 0 ([Resp SendItemRes] @ [Resp (SubItemsRes 1000 0)] :: string event list) = []
   \<and> subseq (map item (chan_log 0 [Update 0 (UpdateMessage ''b''), Resp SendItemRes]))
        (sent_items [Recv (SendItemReq ''b'')])
   \<and> fst (delivery_task record_item []
        (map UpdateC (chan_log 0 ([Resp SendItemRes] @ [Resp (SubItemsRes 1000 0)]
           @ [Update 0 (UpdateMessage ''b''), Resp SendItemRes])))) = [''b'']"
proof -
  have h1: "range_ok sorted_order"
    by (rule range_ok_sorted_order)
  have h2: "actor_loop sorted_order 0 (init never_done) [Recv (SendItemReq ''a'')]
       = ([Resp SendItemRes],
          Selecting \<lparr>cache = [''a''], nextSubId = 1000, subscriptions = Map.empty, chans_made = 0,
            receivers = never_done\<rparr>)"
    by (simp add: run_simps)
  have h3: "handle sorted_order 0
        \<lparr>cache = [''a''], nextSubId = 1000, subscriptions = Map.empty, chans_made = 0,
            receivers = never_done\<rparr>
        (SubItemsReq False)
       = ([Resp (SubItemsRes 1000 0)],
          Inr \<lparr>cache = [''a''], nextSubId = 1001, subscriptions = [1000 \<mapsto> 0], chans_made = 1,
            receivers = never_done\<rparr>)"
    by simp
  have h4: "actor_loop sorted_order 0
        \<lparr>cache = [''a''], nextSubId = 1001, subscriptions = [1000 \<mapsto> 0], chans_made = 1,
            receivers = never_done\<rparr>
        [Recv (SendItemReq ''b'')]
       = ([Update 0 (UpdateMessage ''b''), Resp SendItemRes],
          Selecting \<lparr>cache = [''a'', ''b''], nextSubId = 1001, subscriptions = [1000 \<mapsto> 0],
                     chans_made = 1, receivers = never_done\<rparr>)"
    by (simp add: run_simps range_subs_sorted_single never_done_def took_def)
  have c: "chan_log 0 ([Resp SendItemRes] @ [Resp (SubItemsRes 1000 0)] :: string event list) = []
   \<and> subseq (map item (chan_log 0 [Update 0 (UpdateMessage ''b''), Resp SendItemRes]))
        (sent_items [Recv (SendItemReq ''b'')])"
    using subscribe_no_earlier_items [OF h1 h2 h3 h4] by simp
  have t: "fst (delivery_task record_item []
        (map UpdateC (chan_log 0 ([Resp SendItemRes] @ [Resp (SubItemsRes 1000 0)]
           @ [Update 0 (UpdateMessage ''b''), Resp SendItemRes])))) = [''b'']"
    by (simp add: record_item_def)
  show ?thesis
    using h1 h2 h3 h4 c t by blast
qed

section \<open>Cancelling a subscription\<close>

text \<open>
  C8. The \<^verbatim>\<open>cancelSubC\<close> case never panics and never blocks: for every id it answers with
  the empty response and leaves a state whose table has the id removed, everything else
  as it was; when the id is not in the table the state is unchanged; and handling the
  same cancel a second time gives the state the first one gave.
\<close>

theorem cancel_idempotent_total:
  "handle ord d st (CancelSubReq i)
     = ([Resp CancelSubRes], Inr (st\<lparr>subscriptions := (subscriptions st)(i := None)\<rparr>))
   \<and> (i \<notin> dom (subscriptions st) \<longrightarrow> handle ord d st (CancelSubReq i) = ([Resp CancelSubRes], Inr st))
   \<and> (\<forall>st'. snd (handle ord d st (CancelSubReq i)) = Inr st'
        \<longrightarrow> dom (subscriptions st') = dom (subscriptions st) - {i}
          \<and> (\<forall>j. j \<noteq> i \<longrightarrow> subscriptions st' j = subscriptions st j)
          \<and> cache st' = cache st \<and> nextSubId st' = nextSubId st
          \<and> handle ord d st' (CancelSubReq i) = ([Resp CancelSubRes], Inr st'))"
proof (intro conjI allI impI)
  show "handle ord d st (CancelSubReq i)
     = ([Resp CancelSubRes], Inr (st\<lparr>subscriptions := (subscriptions st)(i := None)\<rparr>))"
    by simp
next
  assume "i \<notin> dom (subscriptions st)"
  then have "(subscriptions st)(i := None) = subscriptions st"
    by (auto simp: fun_upd_idem_iff)
  then show "handle ord d st (CancelSubReq i) = ([Resp CancelSubRes], Inr st)"
    by simp
next
  fix st' assume "snd (handle ord d st (CancelSubReq i)) = Inr st'"
  then have st': "st' = st\<lparr>subscriptions := (subscriptions st)(i := None)\<rparr>"
    by simp
  show "dom (subscriptions st') = dom (subscriptions st) - {i}"
    by (simp add: st')
  show "cache st' = cache st" "nextSubId st' = nextSubId st"
    by (simp_all add: st')
  show "handle ord d st' (CancelSubReq i) = ([Resp CancelSubRes], Inr st')"
    by (simp add: st')
  fix j assume "j \<noteq> i"
  then show "subscriptions st' j = subscriptions st j"
    by (simp add: st')
qed

theorem cancel_idempotent_total_witness:
  "(7 :: go_int) \<notin> dom (subscriptions
       (\<lparr>cache = [''a''], nextSubId = 1001, subscriptions = [1000 \<mapsto> 0], chans_made = 1,
         receivers = never_done\<rparr>))
   \<and> handle sorted_order 2
        \<lparr>cache = [''a''], nextSubId = 1001, subscriptions = [1000 \<mapsto> 0], chans_made = 1,
         receivers = never_done\<rparr>
        (CancelSubReq 7)
       = ([Resp CancelSubRes],
          Inr \<lparr>cache = [''a''], nextSubId = 1001, subscriptions = [1000 \<mapsto> 0], chans_made = 1,
         receivers = never_done\<rparr>)
   \<and> handle sorted_order 2
        \<lparr>cache = [''a''], nextSubId = 1001, subscriptions = [1000 \<mapsto> 0], chans_made = 1,
         receivers = never_done\<rparr>
        (CancelSubReq 1000)
       = ([Resp CancelSubRes],
          Inr \<lparr>cache = [''a''], nextSubId = 1001, subscriptions = Map.empty, chans_made = 1,
         receivers = never_done\<rparr>)"
proof (intro conjI)
  show h: "(7 :: go_int) \<notin> dom (subscriptions
       (\<lparr>cache = [''a''], nextSubId = 1001, subscriptions = [1000 \<mapsto> 0], chans_made = 1,
         receivers = never_done\<rparr>))"
    by simp
  show "handle sorted_order 2
        \<lparr>cache = [''a''], nextSubId = 1001, subscriptions = [1000 \<mapsto> 0], chans_made = 1,
         receivers = never_done\<rparr>
        (CancelSubReq 7)
       = ([Resp CancelSubRes],
          Inr \<lparr>cache = [''a''], nextSubId = 1001, subscriptions = [1000 \<mapsto> 0], chans_made = 1,
         receivers = never_done\<rparr>)"
    using h cancel_idempotent_total [of sorted_order 2
        "\<lparr>cache = [''a''], nextSubId = 1001, subscriptions = [1000 \<mapsto> 0], chans_made = 1,
         receivers = never_done\<rparr>" 7]
    by blast
  show "handle sorted_order 2
        \<lparr>cache = [''a''], nextSubId = 1001, subscriptions = [1000 \<mapsto> 0], chans_made = 1,
         receivers = never_done\<rparr>
        (CancelSubReq 1000)
       = ([Resp CancelSubRes],
          Inr \<lparr>cache = [''a''], nextSubId = 1001, subscriptions = Map.empty, chans_made = 1,
         receivers = never_done\<rparr>)"
    using cancel_idempotent_total [of sorted_order 2
        "\<lparr>cache = [''a''], nextSubId = 1001, subscriptions = [1000 \<mapsto> 0], chans_made = 1,
         receivers = never_done\<rparr>" 1000]
    by simp
qed

end
